theory Spec2Isabelle
  imports Complex_Main "HOL-Library.Word"
begin

section \<open>ContextMenu.tsx: menu items, click handling, positioning, hook state\<close>

text \<open>
  A \<open>MenuItem\<close> as the interface declares it. Optional fields are options; the
  click action is a closure in the source and a token of type \<open>'a\<close> here, so that
  a trace can say which action ran. The icon component is named by a string.
  The field \<open>id\<close> is called \<open>item_id\<close> (\<open>id\<close> is HOL's identity function).
\<close>

datatype 'a MenuItem = MenuItem
  (item_id: string)
  (label: string)
  (icon: "string option")
  (shortcut: "string option")
  (disabled: "bool option")
  (danger: "bool option")
  (checked: "bool option")
  (children: "'a MenuItem list option")
  (onClick: "'a option")
  (divider: "bool option")

text \<open>JavaScript truthiness of an optional boolean: only a present \<open>true\<close>.\<close>

fun truthy :: "bool option \<Rightarrow> bool" where
  "truthy (Some b) = b"
| "truthy None = False"

text \<open>
  What a click does, in order: calls of item actions and calls of \<open>onClose\<close>.
\<close>

datatype 'a effect = Invoke 'a | Close

text \<open>
  \<open>handleClick\<close> of \<open>MenuItemComponent\<close>. An array is truthy in JavaScript, also
  the empty one, so \<open>item.children\<close> is truthy exactly when the field is present.
  \<open>item.onClick?.()\<close> calls the action when there is one.
\<close>

definition handleClick :: "'a MenuItem \<Rightarrow> 'a effect list" where
  "handleClick item =
     (if truthy (disabled item) \<or> children item \<noteq> None then []
      else (case onClick item of None \<Rightarrow> [] | Some a \<Rightarrow> [Invoke a]) @ [Close])"

text \<open>
  \<open>MenuItemComponent\<close> renders a divider as a bare \<open>div\<close> without a handler and
  every other item as a button whose \<open>onClick\<close> is \<open>handleClick\<close>.
\<close>

datatype 'a rendered_item = DividerLine | ItemButton "'a MenuItem"

definition MenuItemComponent :: "'a MenuItem \<Rightarrow> 'a rendered_item" where
  "MenuItemComponent item = (if truthy (divider item) then DividerLine else ItemButton item)"

fun click_rendered :: "'a rendered_item \<Rightarrow> 'a effect list" where
  "click_rendered DividerLine = []"
| "click_rendered (ItemButton item) = handleClick item"

definition click_item :: "'a MenuItem \<Rightarrow> 'a effect list" where
  "click_item item = click_rendered (MenuItemComponent item)"

text \<open>
  \<open>MenuPosition\<close> (fields \<open>x\<close>, \<open>y\<close> of the source, here \<open>pos_x\<close>, \<open>pos_y\<close>) and
  the measured rectangle of the panel (\<open>rect.width\<close>, \<open>rect.height\<close>). JavaScript
  numbers are taken as real numbers: rounding is not modelled.
\<close>

record MenuPosition =
  pos_x :: real
  pos_y :: real

record DOMRect =
  rect_width :: real
  rect_height :: real

text \<open>
  The positioning effect of \<open>ContextMenu\<close>. The first argument is
  \<open>menuRef.current\<close> (its measured rectangle), \<open>None\<close> when the ref is not set: the
  effect then returns without writing a position. The result is the pair written to
  \<open>menu.style.left\<close> and \<open>menu.style.top\<close>.
\<close>

definition adjustPosition ::
  "DOMRect option \<Rightarrow> real \<Rightarrow> real \<Rightarrow> MenuPosition \<Rightarrow> MenuPosition option" where
  "adjustPosition menuRef viewportWidth viewportHeight position =
     (case menuRef of
        None \<Rightarrow> None
      | Some rect \<Rightarrow>
          (let x0 = pos_x position;
               y0 = pos_y position;
               x1 = (if x0 + rect_width rect > viewportWidth
                     then viewportWidth - rect_width rect - 8 else x0);
               y1 = (if y0 + rect_height rect > viewportHeight
                     then viewportHeight - rect_height rect - 8 else y0)
           in Some \<lparr>pos_x = max 8 x1, pos_y = max 8 y1\<rparr>))"

text \<open>
  The property the specification states of a written position: the panel's box
  \<open>[x, x + width] \<times> [y, y + height]\<close> inside
  \<open>[8, viewportWidth - 8] \<times> [8, viewportHeight - 8]\<close>.
\<close>

definition within_margins :: "real \<Rightarrow> real \<Rightarrow> DOMRect \<Rightarrow> MenuPosition \<Rightarrow> bool" where
  "within_margins viewportWidth viewportHeight rect p =
     (8 \<le> pos_x p \<and> pos_x p + rect_width rect \<le> viewportWidth - 8 \<and>
      8 \<le> pos_y p \<and> pos_y p + rect_height rect \<le> viewportHeight - 8)"

text \<open>The state of the \<open>useContextMenu\<close> hook, its initial value, \<open>show\<close> and \<open>hide\<close>.\<close>

record 'a ContextMenuState =
  isOpen :: bool
  position :: MenuPosition
  items :: "'a MenuItem list"

definition useContextMenuState :: "'a ContextMenuState" where
  "useContextMenuState = \<lparr>isOpen = False, position = \<lparr>pos_x = 0, pos_y = 0\<rparr>, items = []\<rparr>"

definition show_menu :: "real \<Rightarrow> real \<Rightarrow> 'a MenuItem list \<Rightarrow> 'a ContextMenuState \<Rightarrow> 'a ContextMenuState" where
  "show_menu clientX clientY its prev =
     \<lparr>isOpen = True, position = \<lparr>pos_x = clientX, pos_y = clientY\<rparr>, items = its\<rparr>"

definition hide :: "'a ContextMenuState \<Rightarrow> 'a ContextMenuState" where
  "hide prev = prev\<lparr>isOpen := False\<rparr>"

section \<open>Commands sent to the application store\<close>

text \<open>
  A JavaScript string that is trimmed is a list of UTF-16 code units; identifiers that
  are only compared (instance ids, task ids, task names, key names) are plain strings.
\<close>

type_synonym jsstring = "16 word list"

datatype command =
    ReorderTasks string int int
  | RenameTask string string jsstring
  | ToggleTaskEnabled string string
  | ToggleTaskExpanded string string
  | RemoveTaskFromInstance string string

section \<open>TaskList: the drag-end handler\<close>

record SelectedTask =
  task_id :: string
  taskName :: string
  customName :: "jsstring option"
  enabled :: bool
  expanded :: bool

record Instance =
  instance_id :: string
  selectedTasks :: "SelectedTask list"

text \<open>
  \<open>Array.prototype.findIndex\<close>: the index of the first element satisfying the
  predicate, scanning from index 0, and -1 when there is none.
\<close>

fun findIndexFrom :: "('a \<Rightarrow> bool) \<Rightarrow> int \<Rightarrow> 'a list \<Rightarrow> int" where
  "findIndexFrom p k [] = - 1"
| "findIndexFrom p k (v # vs) = (if p v then k else findIndexFrom p (k + 1) vs)"

definition findIndex :: "('a \<Rightarrow> bool) \<Rightarrow> 'a list \<Rightarrow> int" where
  "findIndex p vs = findIndexFrom p 0 vs"

text \<open>
  A \<open>DragEndEvent\<close>: the id of the dragged element and the id of the element it was
  dropped over, \<open>None\<close> when \<open>over\<close> is null.
\<close>

record DragEndEvent =
  active :: string
  over :: "string option"

text \<open>
  \<open>handleDragEnd\<close>, given the active instance (\<open>None\<close> when there is none): the list
  of commands it sends.
\<close>

definition handleDragEnd :: "Instance option \<Rightarrow> DragEndEvent \<Rightarrow> command list" where
  "handleDragEnd inst event =
     (case over event of
        None \<Rightarrow> []
      | Some over_id \<Rightarrow>
          (case inst of
             None \<Rightarrow> []
           | Some instance \<Rightarrow>
               if active event \<noteq> over_id then
                 (let oldIndex = findIndex (\<lambda>t. task_id t = active event) (selectedTasks instance);
                      newIndex = findIndex (\<lambda>t. task_id t = over_id) (selectedTasks instance)
                  in [ReorderTasks (instance_id instance) oldIndex newIndex])
               else []))"

section \<open>TaskItem: resolution of the task definition, rename state machine, row controls\<close>

record TaskDef =
  name :: string
  option_keys :: "string list option"

record ProjectInterface =
  task :: "TaskDef list"

text \<open>
  \<open>projectInterface?.task.find(t => t.name === task.taskName)\<close>: the optional chain
  gives undefined when the interface is null, \<open>find\<close> gives the first match or
  undefined.
\<close>

definition resolveTaskDef :: "ProjectInterface option \<Rightarrow> SelectedTask \<Rightarrow> TaskDef option" where
  "resolveTaskDef projectInterface t =
     (case projectInterface of
        None \<Rightarrow> None
      | Some iface \<Rightarrow> List.find (\<lambda>d. name d = taskName t) (task iface))"

text \<open>\<open>taskDef.option && taskDef.option.length > 0\<close>.\<close>

definition hasOptions :: "TaskDef \<Rightarrow> bool" where
  "hasOptions d = (case option_keys d of None \<Rightarrow> False | Some ks \<Rightarrow> length ks > 0)"

text \<open>The component-local state of a row: \<open>isEditing\<close> and the edit buffer \<open>editName\<close>.\<close>

record TaskItemState =
  isEditing :: bool
  editName :: jsstring

definition initialTaskItemState :: TaskItemState where
  "initialTaskItemState = \<lparr>isEditing = False, editName = []\<rparr>"

text \<open>
  \<open>String.prototype.trim\<close> removes leading and trailing white space and line
  terminators (ECMAScript \<open>WhiteSpace\<close> and \<open>LineTerminator\<close>, all of them single
  code units).
\<close>

definition isWhiteSpace :: "16 word \<Rightarrow> bool" where
  "isWhiteSpace c =
     (c = 0x0009 \<or> c = 0x000A \<or> c = 0x000B \<or> c = 0x000C \<or> c = 0x000D \<or> c = 0x0020 \<or>
      c = 0x00A0 \<or> c = 0x1680 \<or> (0x2000 \<le> c \<and> c \<le> 0x200A) \<or> c = 0x2028 \<or> c = 0x2029 \<or>
      c = 0x202F \<or> c = 0x205F \<or> c = 0x3000 \<or> c = 0xFEFF)"

definition trim :: "jsstring \<Rightarrow> jsstring" where
  "trim s = rev (dropWhile isWhiteSpace (rev (dropWhile isWhiteSpace s)))"

text \<open>
  The handlers of the rename state machine. Each returns the new local state and the
  commands sent to the store. \<open>task.customName || ''\<close> is the custom name when it is
  present and not empty, and the empty string otherwise.
\<close>

definition customNameOrEmpty :: "SelectedTask \<Rightarrow> jsstring" where
  "customNameOrEmpty t = (case customName t of None \<Rightarrow> [] | Some n \<Rightarrow> n)"

definition handleDoubleClick :: "SelectedTask \<Rightarrow> TaskItemState \<Rightarrow> TaskItemState \<times> command list" where
  "handleDoubleClick t s = (s\<lparr>editName := customNameOrEmpty t, isEditing := True\<rparr>, [])"

definition handleSaveEdit ::
  "string \<Rightarrow> SelectedTask \<Rightarrow> TaskItemState \<Rightarrow> TaskItemState \<times> command list" where
  "handleSaveEdit instanceId t s =
     (s\<lparr>isEditing := False\<rparr>, [RenameTask instanceId (task_id t) (trim (editName s))])"

definition handleCancelEdit :: "TaskItemState \<Rightarrow> TaskItemState \<times> command list" where
  "handleCancelEdit s = (s\<lparr>isEditing := False, editName := []\<rparr>, [])"

definition handleKeyDown ::
  "string \<Rightarrow> string \<Rightarrow> SelectedTask \<Rightarrow> TaskItemState \<Rightarrow> TaskItemState \<times> command list" where
  "handleKeyDown key instanceId t s =
     (if key = ''Enter'' then handleSaveEdit instanceId t s
      else if key = ''Escape'' then handleCancelEdit s
      else (s, []))"

text \<open>The handlers the edit row wires to the input's \<open>onBlur\<close> and to the two buttons.\<close>

definition onBlur ::
  "string \<Rightarrow> SelectedTask \<Rightarrow> TaskItemState \<Rightarrow> TaskItemState \<times> command list" where
  "onBlur instanceId t s = handleSaveEdit instanceId t s"

definition confirmMouseDown ::
  "string \<Rightarrow> SelectedTask \<Rightarrow> TaskItemState \<Rightarrow> TaskItemState \<times> command list" where
  "confirmMouseDown instanceId t s = handleSaveEdit instanceId t s"

definition cancelMouseDown :: "TaskItemState \<Rightarrow> TaskItemState \<times> command list" where
  "cancelMouseDown s = handleCancelEdit s"

text \<open>
  The controls a rendered row holds, in document order. \<open>TaskItem\<close> returns null
  (\<open>None\<close>) when the task definition is not resolved. The last argument is
  \<open>menuState.isOpen\<close>.
\<close>

datatype control =
    DragHandle
  | EnableCheckbox
  | NameInput
  | ConfirmButton
  | CancelButton
  | NameLabel
  | ExpandButton
  | DeleteButton
  | OptionPanel "string list"
  | ContextMenuPortal

definition TaskItem ::
  "ProjectInterface option \<Rightarrow> SelectedTask \<Rightarrow> TaskItemState \<Rightarrow> bool \<Rightarrow> control list option" where
  "TaskItem projectInterface t s menuOpen =
     (case resolveTaskDef projectInterface t of
        None \<Rightarrow> None
      | Some taskDef \<Rightarrow>
          Some ([DragHandle, EnableCheckbox]
                @ (if isEditing s then [NameInput, ConfirmButton, CancelButton] else [NameLabel])
                @ (if hasOptions taskDef \<and> \<not> isEditing s then [ExpandButton] else [])
                @ (if \<not> isEditing s then [DeleteButton] else [])
                @ (if hasOptions taskDef \<and> expanded t
                   then [OptionPanel (case option_keys taskDef of None \<Rightarrow> [] | Some ks \<Rightarrow> ks)]
                   else [])
                @ (if menuOpen then [ContextMenuPortal] else [])))"

text \<open>What activating a control of the row sends to the store.\<close>

fun activate :: "string \<Rightarrow> SelectedTask \<Rightarrow> control \<Rightarrow> command list" where
  "activate instanceId t EnableCheckbox = [ToggleTaskEnabled instanceId (task_id t)]"
| "activate instanceId t ExpandButton = [ToggleTaskExpanded instanceId (task_id t)]"
| "activate instanceId t DeleteButton = [RemoveTaskFromInstance instanceId (task_id t)]"
| "activate instanceId t c = []"

text \<open>
  The hooks one call of \<open>TaskItem\<close> makes, in order. \<open>useTranslation\<close>, the two
  \<open>useState\<close>, \<open>useAppStore\<close>, \<open>useContextMenu\<close> and \<open>useSortable\<close> come before
  the lookup of the task definition; the \<open>useCallback\<close> of \<open>handleContextMenu\<close>
  comes after \<open>if (!taskDef) return null\<close>, so a call that returns null does not
  reach it.
\<close>

datatype hook = UseTranslation | UseState | UseAppStore | UseContextMenu | UseSortable | UseCallback

definition TaskItem_hooks :: "ProjectInterface option \<Rightarrow> SelectedTask \<Rightarrow> hook list" where
  "TaskItem_hooks projectInterface t =
     [UseTranslation, UseState, UseState, UseAppStore, UseContextMenu, UseSortable]
     @ (case resolveTaskDef projectInterface t of None \<Rightarrow> [] | Some taskDef \<Rightarrow> [UseCallback])"

text \<open>
  How React renders a function component. The first render (no previous hook list)
  takes the hooks as they come. A later render must call as many hooks as the one
  before: React throws "Rendered fewer hooks than expected" when the function returns
  with fewer, and "Rendered more hooks than during the previous render" when it calls
  one more.
\<close>

datatype react_error = RenderedFewerHooks | RenderedMoreHooks

definition renderWithHooks :: "hook list option \<Rightarrow> hook list \<Rightarrow> 'a \<Rightarrow> react_error + 'a" where
  "renderWithHooks previous called output =
     (case previous of
        None \<Rightarrow> Inr output
      | Some prev \<Rightarrow>
          if length called < length prev then Inl RenderedFewerHooks
          else if length prev < length called then Inl RenderedMoreHooks
          else Inr output)"

text \<open>
  A render of a task row by React: the hooks of the previous render of this row
  (\<open>None\<close> when the row mounts), then the arguments of \<open>TaskItem\<close>.
\<close>

definition render_TaskItem ::
  "hook list option \<Rightarrow> ProjectInterface option \<Rightarrow> SelectedTask \<Rightarrow> TaskItemState \<Rightarrow> bool
     \<Rightarrow> react_error + control list option" where
  "render_TaskItem previous projectInterface t s menuOpen =
     renderWithHooks previous (TaskItem_hooks projectInterface t)
       (TaskItem projectInterface t s menuOpen)"

section \<open>OnboardingOverlay: store, component state and timers\<close>

text \<open>
  The two functions the component passes to \<open>setTimeout\<close>: the one of the display
  effect, \<open>() => setIsVisible(true)\<close>, and the one of \<open>handleDismiss\<close>,
  \<open>() => { setIsVisible(false); setOnboardingCompleted(true) }\<close>.
\<close>

datatype callback = ShowOverlay | FinishExit

record timer =
  timer_id :: nat
  due :: nat
  callback :: callback

text \<open>
  One state for the store fields the component reads, the component's own state and
  the browser's timer queue. \<open>mounted\<close>, \<open>cleanupRegistered\<close> (the display effect
  returned its cleanup function at its last run), \<open>now\<close> (milliseconds),
  \<open>nextTimerId\<close> and \<open>staleUpdates\<close> (calls of a state setter after unmount) are
  bookkeeping of the embedding; the other fields carry the source's names.
\<close>

record world =
  onboardingCompleted :: bool
  instanceConnectionStatus :: "string \<Rightarrow> string option"
  instanceResourceLoaded :: "string \<Rightarrow> bool option"
  activeInstanceId :: "string option"
  mounted :: bool
  isVisible :: bool
  isExiting :: bool
  timeoutRef :: "nat option"
  cleanupRegistered :: bool
  now :: nat
  nextTimerId :: nat
  timers :: "timer list"
  staleUpdates :: nat

text \<open>
  \<open>setTimeout\<close> queues a callback and returns its id (a positive integer in a
  browser); \<open>clearTimeout\<close> removes the timer with that id, if it is still queued.
\<close>

definition setTimeout :: "callback \<Rightarrow> nat \<Rightarrow> world \<Rightarrow> nat \<times> world" where
  "setTimeout cb delay s =
     (nextTimerId s,
      s\<lparr>timers := timers s @ [\<lparr>timer_id = nextTimerId s, due = now s + delay, callback = cb\<rparr>],
        nextTimerId := nextTimerId s + 1\<rparr>)"

definition clearTimeout :: "nat \<Rightarrow> world \<Rightarrow> world" where
  "clearTimeout tid s = s\<lparr>timers := filter (\<lambda>t. timer_id t \<noteq> tid) (timers s)\<rparr>"

text \<open>
  \<open>handleDismiss\<close>: \<open>setIsExiting(true)\<close>, then a 200 ms timer whose id is not kept.
\<close>

definition handleDismiss :: "world \<Rightarrow> world" where
  "handleDismiss s = snd (setTimeout FinishExit 200 (s\<lparr>isExiting := True\<rparr>))"

text \<open>
  The first effect (dependency \<open>onboardingCompleted\<close>): nothing when onboarding is
  completed, otherwise a 500 ms timer whose id is stored in \<open>timeoutRef.current\<close>, and
  a cleanup that clears the stored id when it is truthy.
\<close>

definition displayEffect :: "world \<Rightarrow> world" where
  "displayEffect s =
     (if onboardingCompleted s then s\<lparr>cleanupRegistered := False\<rparr>
      else (let (tid, s') = setTimeout ShowOverlay 500 s
            in s'\<lparr>timeoutRef := Some tid, cleanupRegistered := True\<rparr>))"

definition displayCleanup :: "world \<Rightarrow> world" where
  "displayCleanup s =
     (if cleanupRegistered s then
        (case timeoutRef s of
           None \<Rightarrow> s
         | Some tid \<Rightarrow> if tid \<noteq> 0 then clearTimeout tid s else s)
      else s)"

text \<open>
  The second effect (dependencies \<open>isVisible\<close>, \<open>onboardingCompleted\<close>,
  \<open>activeInstanceId\<close>, \<open>instanceConnectionStatus\<close>, \<open>instanceResourceLoaded\<close>). An
  empty id is falsy, a missing status is not \<open>'Connected'\<close>, a missing loaded flag is
  falsy.
\<close>

definition watcherEffect :: "world \<Rightarrow> world" where
  "watcherEffect s =
     (if \<not> isVisible s \<or> onboardingCompleted s then s
      else (case activeInstanceId s of
              None \<Rightarrow> s
            | Some currentInstanceId \<Rightarrow>
                if currentInstanceId = [] then s
                else (let isConnected =
                            (instanceConnectionStatus s currentInstanceId = Some ''Connected'');
                          isResourceLoaded =
                            (instanceResourceLoaded s currentInstanceId = Some True)
                      in if isConnected \<and> isResourceLoaded then handleDismiss s else s)))"

text \<open>
  What React does after a render of the mounted component: for each effect with a
  changed dependency, first the cleanup, then the effect, in the order of declaration.
  \<open>old\<close> is the state of the previous render; \<open>refsChanged\<close> says that the store
  replaced one of its two per-instance objects (every store write is taken to produce a
  new object). Updates made in one handler or callback are rendered together.
\<close>

definition commit :: "world \<Rightarrow> bool \<Rightarrow> world \<Rightarrow> world" where
  "commit old refsChanged s =
     (if \<not> mounted s then s
      else (let d1 = (onboardingCompleted old \<noteq> onboardingCompleted s);
                d2 = (d1 \<or> isVisible old \<noteq> isVisible s \<or>
                      activeInstanceId old \<noteq> activeInstanceId s \<or> refsChanged);
                s1 = (if d1 then displayEffect (displayCleanup s) else s)
            in if d2 then watcherEffect s1 else s1))"

text \<open>
  Mounting: the initial state of the component, then both effects. The arguments are
  the store's values at that time.
\<close>

definition mount ::
  "bool \<Rightarrow> (string \<Rightarrow> string option) \<Rightarrow> (string \<Rightarrow> bool option) \<Rightarrow> string option \<Rightarrow> world" where
  "mount completed statuses loaded activeId =
     watcherEffect (displayEffect
       \<lparr>onboardingCompleted = completed, instanceConnectionStatus = statuses,
        instanceResourceLoaded = loaded, activeInstanceId = activeId,
        mounted = True, isVisible = False, isExiting = False, timeoutRef = None,
        cleanupRegistered = False, now = 0, nextTimerId = 1, timers = [], staleUpdates = 0\<rparr>)"

text \<open>Unmounting runs the cleanup of the display effect; the second effect has none.\<close>

definition unmount :: "world \<Rightarrow> world" where
  "unmount s = (if mounted s then (displayCleanup s)\<lparr>mounted := False\<rparr> else s)"

text \<open>
  Running a timer callback. A state setter of an unmounted component changes nothing
  (counted in \<open>staleUpdates\<close>); the store's setter still writes the store.
\<close>

fun runCallback :: "callback \<Rightarrow> world \<Rightarrow> world" where
  "runCallback ShowOverlay s =
     (if mounted s then commit s False (s\<lparr>isVisible := True\<rparr>)
      else s\<lparr>staleUpdates := staleUpdates s + 1\<rparr>)"
| "runCallback FinishExit s =
     (if mounted s then commit s False (s\<lparr>isVisible := False, onboardingCompleted := True\<rparr>)
      else s\<lparr>staleUpdates := staleUpdates s + 1, onboardingCompleted := True\<rparr>)"

text \<open>
  The timer queue: \<open>fire\<close> runs the timer with the given id if it is still queued;
  \<open>tick\<close> advances the clock by one millisecond and fires the timers that are due,
  in the order they were queued; \<open>advance\<close> lets \<open>n\<close> milliseconds pass.
\<close>

definition fire :: "nat \<Rightarrow> world \<Rightarrow> world" where
  "fire tid s =
     (case List.find (\<lambda>t. timer_id t = tid) (timers s) of
        None \<Rightarrow> s
      | Some t \<Rightarrow> runCallback (callback t) (clearTimeout tid s))"

definition tick :: "world \<Rightarrow> world" where
  "tick s =
     (let s1 = s\<lparr>now := now s + 1\<rparr>
      in fold fire (map timer_id (filter (\<lambda>t. due t \<le> now s1) (timers s1))) s1)"

primrec advance :: "nat \<Rightarrow> world \<Rightarrow> world" where
  "advance 0 s = s"
| "advance (Suc n) s = advance n (tick s)"

text \<open>
  What can happen to a mounted overlay: the store changes a connection status, a
  resource-loaded flag or the active instance; the user clicks the backdrop or the
  acknowledgement button (both call \<open>handleDismiss\<close>, and both exist only while the
  overlay is rendered); the component unmounts; time passes.
\<close>

datatype event =
    SetConnectionStatus string string
  | SetResourceLoaded string bool
  | SetActiveInstance "string option"
  | ClickDismiss
  | Unmount
  | Elapse nat

fun store_update :: "event \<Rightarrow> world \<Rightarrow> world" where
  "store_update (SetConnectionStatus i c) s =
     s\<lparr>instanceConnectionStatus := (instanceConnectionStatus s)(i \<mapsto> c)\<rparr>"
| "store_update (SetResourceLoaded i b) s =
     s\<lparr>instanceResourceLoaded := (instanceResourceLoaded s)(i \<mapsto> b)\<rparr>"
| "store_update (SetActiveInstance a) s = s\<lparr>activeInstanceId := a\<rparr>"
| "store_update e s = s"

fun step :: "event \<Rightarrow> world \<Rightarrow> world" where
  "step (SetConnectionStatus i c) s = commit s True (store_update (SetConnectionStatus i c) s)"
| "step (SetResourceLoaded i b) s = commit s True (store_update (SetResourceLoaded i b) s)"
| "step (SetActiveInstance a) s = commit s False (store_update (SetActiveInstance a) s)"
| "step ClickDismiss s = (if mounted s \<and> isVisible s then handleDismiss s else s)"
| "step Unmount s = unmount s"
| "step (Elapse n) s = advance n s"

fun run :: "event list \<Rightarrow> world \<Rightarrow> world" where
  "run [] s = s"
| "run (e # es) s = run es (step e s)"

fun elapsed :: "event list \<Rightarrow> nat" where
  "elapsed [] = 0"
| "elapsed (Elapse n # es) = n + elapsed es"
| "elapsed (e # es) = elapsed es"

text \<open>
  What the component renders: null while \<open>isVisible\<close> is false, otherwise the overlay
  with its entering or its leaving animation.
\<close>

datatype overlay_view = Entering | Leaving

definition OnboardingOverlay :: "world \<Rightarrow> overlay_view option" where
  "OnboardingOverlay s =
     (if \<not> isVisible s then None else Some (if isExiting s then Leaving else Entering))"

section \<open>OnboardingOverlay: phases of the overlay\<close>

text \<open>
  Three predicates on states, used to follow the overlay through its life. In the
  \<open>dismissed\<close> phase onboarding is completed, nothing is shown and no display timer is
  queued. \<open>queue_ok\<close> relates the timer queue to \<open>timeoutRef\<close>: ids are positive and
  below the next id, a queued display timer is the one \<open>timeoutRef.current\<close> names
  (with its cleanup registered, in a mounted overlay that is neither shown nor
  completed), and no exit timer has the id stored in \<open>timeoutRef.current\<close>.
\<close>

definition dismissed :: "world \<Rightarrow> bool" where
  "dismissed s =
     (onboardingCompleted s \<and> \<not> isVisible s \<and> (\<forall>t \<in> set (timers s). callback t \<noteq> ShowOverlay))"

definition queue_ok :: "world \<Rightarrow> bool" where
  "queue_ok s =
     (0 < nextTimerId s \<and>
      (\<forall>t \<in> set (timers s). timer_id t < nextTimerId s) \<and>
      (\<forall>tid. timeoutRef s = Some tid \<longrightarrow> 0 < tid \<and> tid < nextTimerId s) \<and>
      (\<forall>t \<in> set (timers s). callback t = ShowOverlay \<longrightarrow>
         timeoutRef s = Some (timer_id t) \<and> cleanupRegistered s \<and> mounted s \<and>
         \<not> onboardingCompleted s \<and> \<not> isVisible s) \<and>
      (\<forall>t \<in> set (timers s). callback t = FinishExit \<longrightarrow> timeoutRef s \<noteq> Some (timer_id t)))"

text \<open>
  The \<open>pending\<close> phase, \<open>r\<close> milliseconds before the overlay shows: the display
  timer is the only queued timer.
\<close>

definition pending :: "nat \<Rightarrow> world \<Rightarrow> bool" where
  "pending r s =
     (0 < r \<and> mounted s \<and> \<not> isVisible s \<and> \<not> onboardingCompleted s \<and>
      map callback (timers s) = [ShowOverlay] \<and> map due (timers s) = [now s + r])"

section \<open>Helper lemmas on lists\<close>

lemma findIndexFrom_nth:
  "i < length vs \<Longrightarrow> p (vs ! i) \<Longrightarrow> (\<forall>j < i. \<not> p (vs ! j)) \<Longrightarrow>
   findIndexFrom p k vs = k + int i"
proof (induction vs arbitrary: i k)
  case Nil
  then show ?case by simp
next
  case (Cons v vs)
  show ?case
  proof (cases i)
    case 0
    with Cons.prems show ?thesis by simp
  next
    case (Suc m)
    from Cons.prems Suc have nv: "\<not> p v" by force
    from Cons.prems Suc have m: "m < length vs" "p (vs ! m)" by simp_all
    have "\<forall>j < m. \<not> p (vs ! j)"
    proof (intro allI impI)
      fix j assume "j < m"
      then have "Suc j < i" using Suc by simp
      with Cons.prems(3) have "\<not> p ((v # vs) ! Suc j)" by blast
      then show "\<not> p (vs ! j)" by simp
    qed
    with Cons.IH [OF m] have "findIndexFrom p (k + 1) vs = k + 1 + int m" by blast
    with nv Suc show ?thesis by simp
  qed
qed

lemma findIndex_distinct:
  assumes "distinct (map f vs)" and "i < length vs"
  shows "findIndex (\<lambda>t. f t = f (vs ! i)) vs = int i"
proof -
  have "\<forall>j < i. f (vs ! j) \<noteq> f (vs ! i)"
  proof (intro allI impI)
    fix j assume "j < i"
    then have "j < length (map f vs)" "i < length (map f vs)" "j \<noteq> i"
      using assms(2) by simp_all
    with assms(1) have "map f vs ! j \<noteq> map f vs ! i"
      by (simp only: nth_eq_iff_index_eq) simp
    with \<open>j < i\<close> assms(2) show "f (vs ! j) \<noteq> f (vs ! i)" by simp
  qed
  with assms(2) have "findIndexFrom (\<lambda>t. f t = f (vs ! i)) 0 vs = 0 + int i"
    by (intro findIndexFrom_nth) simp_all
  then show ?thesis by (simp add: findIndex_def)
qed

lemma dropWhile_all: "\<forall>c \<in> set s. p c \<Longrightarrow> dropWhile p s = []"
  by (induction s) simp_all

lemma find_none_name: "\<forall>d \<in> set ds. \<not> p d \<Longrightarrow> List.find p ds = None"
  by (induction ds) simp_all

section \<open>Trimming removes exactly the white space at both ends\<close>

lemma dropWhile_prefix_all:
  "\<forall>c \<in> set p. w c \<Longrightarrow> dropWhile w (p @ r) = dropWhile w r"
  by (induction p) simp_all

lemma trim_decomposed:
  assumes "\<forall>c \<in> set p. isWhiteSpace c" and "\<forall>c \<in> set q. isWhiteSpace c"
    and "v = [] \<or> \<not> isWhiteSpace (hd v) \<and> \<not> isWhiteSpace (last v)"
  shows "trim (p @ v @ q) = v"
proof (cases "v = []")
  case True
  have "\<forall>c \<in> set (p @ q). isWhiteSpace c" using assms(1,2) by auto
  then have "dropWhile isWhiteSpace (p @ q) = []" by (rule dropWhile_all)
  then have "trim (p @ q) = []" by (simp only: trim_def rev.simps dropWhile.simps)
  with True show ?thesis by simp
next
  case False
  with assms(3) have h: "\<not> isWhiteSpace (hd v)" and l: "\<not> isWhiteSpace (last v)" by simp_all
  from False h have "dropWhile isWhiteSpace (v @ q) = v @ q"
    by (cases v) simp_all
  then have a: "dropWhile isWhiteSpace (p @ v @ q) = v @ q"
    using assms(1) by (simp add: dropWhile_prefix_all)
  have ws: "\<forall>c \<in> set (rev q). isWhiteSpace c" using assms(2) by simp
  from False l have "dropWhile isWhiteSpace (rev v) = rev v"
    by (cases "rev v") (simp_all add: last_rev [symmetric] hd_rev)
  then have "dropWhile isWhiteSpace (rev q @ rev v) = rev v"
    using ws by (simp add: dropWhile_prefix_all)
  with a show ?thesis by (simp add: trim_def)
qed

lemma trim_decomposition:
  "\<exists>p v q. s = p @ v @ q \<and> (\<forall>c \<in> set p. isWhiteSpace c) \<and> (\<forall>c \<in> set q. isWhiteSpace c) \<and>
     (v = [] \<or> \<not> isWhiteSpace (hd v) \<and> \<not> isWhiteSpace (last v))"
proof -
  let ?p = "takeWhile isWhiteSpace s"
  let ?r = "dropWhile isWhiteSpace s"
  let ?q = "rev (takeWhile isWhiteSpace (rev ?r))"
  let ?v = "rev (dropWhile isWhiteSpace (rev ?r))"
  have r: "?r = ?v @ ?q"
  proof -
    have "rev ?r = takeWhile isWhiteSpace (rev ?r) @ dropWhile isWhiteSpace (rev ?r)" by simp
    then have "rev (rev ?r)
        = rev (takeWhile isWhiteSpace (rev ?r) @ dropWhile isWhiteSpace (rev ?r))"
      by (rule arg_cong)
    then have "rev (rev ?r) = ?v @ ?q" by (simp only: rev_append)
    then show ?thesis by simp
  qed
  have s: "s = ?p @ ?v @ ?q" using r by (simp only: takeWhile_dropWhile_id flip: r)
  have p: "\<forall>c \<in> set ?p. isWhiteSpace c" by (auto dest: set_takeWhileD)
  have q: "\<forall>c \<in> set ?q. isWhiteSpace c" by (auto dest: set_takeWhileD)
  have v: "?v = [] \<or> \<not> isWhiteSpace (hd ?v) \<and> \<not> isWhiteSpace (last ?v)"
  proof (cases "?v = []")
    case True
    then show ?thesis by simp
  next
    case False
    then have ne: "dropWhile isWhiteSpace (rev ?r) \<noteq> []" by simp
    then have l: "\<not> isWhiteSpace (last ?v)"
      by (simp add: last_rev hd_dropWhile)
    have "?r \<noteq> []"
    proof
      assume "?r = []"
      then have "?v = []" by (simp only: rev.simps dropWhile.simps)
      with False show False by simp
    qed
    then have "\<not> isWhiteSpace (hd ?r)" by (rule hd_dropWhile)
    moreover from False r have "hd ?r = hd ?v" by (metis hd_append2)
    ultimately show ?thesis using l by simp
  qed
  from s p q v show ?thesis by blast
qed

section \<open>TaskList: reordering by drag and drop\<close>

text \<open>
  Claim C1. In a task list whose ids are pairwise distinct (the data model's invariant),
  a drag of the task at index \<open>i\<close> that ends over the task at a different index \<open>j\<close>
  sends exactly one command, \<open>reorderTasks\<close> with the pair \<open>(i, j)\<close>, for the active
  instance. A drop over the dragged task itself, and a drop with no target, send nothing.
\<close>

theorem handleDragEnd_reorder:
  "(distinct (map task_id (selectedTasks inst)) \<and> i < length (selectedTasks inst) \<and>
    j < length (selectedTasks inst) \<and> i \<noteq> j \<longrightarrow>
      handleDragEnd (Some inst)
        \<lparr>active = task_id (selectedTasks inst ! i),
         over = Some (task_id (selectedTasks inst ! j))\<rparr>
      = [ReorderTasks (instance_id inst) (int i) (int j)]) \<and>
   handleDragEnd oi \<lparr>active = a, over = Some a\<rparr> = [] \<and>
   handleDragEnd oi \<lparr>active = a, over = None\<rparr> = []"
proof (intro conjI impI)
  assume h: "distinct (map task_id (selectedTasks inst)) \<and> i < length (selectedTasks inst) \<and>
    j < length (selectedTasks inst) \<and> i \<noteq> j"
  let ?ts = "selectedTasks inst"
  from h have d: "distinct (map task_id ?ts)" and i: "i < length ?ts" and j: "j < length ?ts"
    and ij: "i \<noteq> j" by simp_all
  have fi: "findIndex (\<lambda>t. task_id t = task_id (?ts ! i)) ?ts = int i"
    by (rule findIndex_distinct [OF d i])
  have fj: "findIndex (\<lambda>t. task_id t = task_id (?ts ! j)) ?ts = int j"
    by (rule findIndex_distinct [OF d j])
  have "map task_id ?ts ! i \<noteq> map task_id ?ts ! j"
    using d i j ij by (simp only: nth_eq_iff_index_eq length_map) simp
  then have ne: "task_id (?ts ! i) \<noteq> task_id (?ts ! j)" using i j by simp
  show "handleDragEnd (Some inst)
        \<lparr>active = task_id (?ts ! i), over = Some (task_id (?ts ! j))\<rparr>
      = [ReorderTasks (instance_id inst) (int i) (int j)]"
    using fi fj ne by (simp add: handleDragEnd_def)
next
  show "handleDragEnd oi \<lparr>active = a, over = Some a\<rparr> = []"
    by (simp add: handleDragEnd_def split: option.split)
next
  show "handleDragEnd oi \<lparr>active = a, over = None\<rparr> = []"
    by (simp add: handleDragEnd_def)
qed

theorem handleDragEnd_reorder_witness:
  "handleDragEnd
     (Some \<lparr>instance_id = ''inst'', selectedTasks =
        [\<lparr>task_id = ''a'', taskName = ''t1'', customName = None, enabled = True, expanded = False\<rparr>,
         \<lparr>task_id = ''b'', taskName = ''t2'', customName = None, enabled = True, expanded = False\<rparr>,
         \<lparr>task_id = ''c'', taskName = ''t1'', customName = None, enabled = False, expanded = False\<rparr>]\<rparr>)
     \<lparr>active = ''c'', over = Some ''a''\<rparr>
   = [ReorderTasks ''inst'' 2 0]"
  using handleDragEnd_reorder [of
      "\<lparr>instance_id = ''inst'', selectedTasks =
        [\<lparr>task_id = ''a'', taskName = ''t1'', customName = None, enabled = True, expanded = False\<rparr>,
         \<lparr>task_id = ''b'', taskName = ''t2'', customName = None, enabled = True, expanded = False\<rparr>,
         \<lparr>task_id = ''c'', taskName = ''t1'', customName = None, enabled = False, expanded = False\<rparr>]\<rparr>"
      2 0]
  by simp

section \<open>ContextMenu: position, click, hide\<close>

text \<open>
  Claim C2, as stated: every written position keeps the panel's box inside
  \<open>[8, viewportWidth - 8] \<times> [8, viewportHeight - 8]\<close>. It fails: in a 100 by 100
  viewport a 50 by 20 panel anchored at (45, 10) does not overflow the viewport, so it is
  not moved, and its right edge is at 95, beyond 92.
\<close>

theorem adjustPosition_margin_counterexample:
  "adjustPosition (Some \<lparr>rect_width = 50, rect_height = 20\<rparr>) 100 100 \<lparr>pos_x = 45, pos_y = 10\<rparr>
     = Some \<lparr>pos_x = 45, pos_y = 10\<rparr> \<and>
   \<not> within_margins 100 100 \<lparr>rect_width = 50, rect_height = 20\<rparr> \<lparr>pos_x = 45, pos_y = 10\<rparr>"
  by (simp add: adjustPosition_def within_margins_def)

text \<open>
  Claim C2, amended. Every written position has both coordinates at least 8. When the
  panel fits beside the left and top margin (width + 8 at most the viewport width,
  height + 8 at most the viewport height) its box stays inside the viewport,
  \<open>[8, viewportWidth] \<times> [8, viewportHeight]\<close>. The box is inside
  \<open>[8, viewportWidth - 8] \<times> [8, viewportHeight - 8]\<close> exactly when the panel fits
  between both margins and the anchored box does not end in the last 8 units before the
  right or bottom edge of the viewport.
\<close>

theorem adjustPosition_bounds:
  assumes "adjustPosition (Some rect) viewportWidth viewportHeight p = Some q"
  shows "8 \<le> pos_x q \<and> 8 \<le> pos_y q \<and>
    (rect_width rect + 8 \<le> viewportWidth \<and> rect_height rect + 8 \<le> viewportHeight \<longrightarrow>
       pos_x q + rect_width rect \<le> viewportWidth \<and> pos_y q + rect_height rect \<le> viewportHeight) \<and>
    (within_margins viewportWidth viewportHeight rect q \<longleftrightarrow>
       rect_width rect + 16 \<le> viewportWidth \<and> rect_height rect + 16 \<le> viewportHeight \<and>
       \<not> (viewportWidth - 8 < pos_x p + rect_width rect \<and> pos_x p + rect_width rect \<le> viewportWidth) \<and>
       \<not> (viewportHeight - 8 < pos_y p + rect_height rect \<and> pos_y p + rect_height rect \<le> viewportHeight))"
proof -
  define x1 where "x1 = (if pos_x p + rect_width rect > viewportWidth
                         then viewportWidth - rect_width rect - 8 else pos_x p)"
  define y1 where "y1 = (if pos_y p + rect_height rect > viewportHeight
                         then viewportHeight - rect_height rect - 8 else pos_y p)"
  from assms have q: "pos_x q = max 8 x1" "pos_y q = max 8 y1"
    by (auto simp: adjustPosition_def Let_def x1_def y1_def)
  have lo: "8 \<le> pos_x q \<and> 8 \<le> pos_y q" using q by simp
  have fit: "rect_width rect + 8 \<le> viewportWidth \<and> rect_height rect + 8 \<le> viewportHeight \<longrightarrow>
       pos_x q + rect_width rect \<le> viewportWidth \<and> pos_y q + rect_height rect \<le> viewportHeight"
    using q by (auto simp: x1_def y1_def max_def)
  have xs: "pos_x q + rect_width rect \<le> viewportWidth - 8 \<longleftrightarrow>
      rect_width rect + 16 \<le> viewportWidth \<and>
      \<not> (viewportWidth - 8 < pos_x p + rect_width rect \<and> pos_x p + rect_width rect \<le> viewportWidth)"
    using q(1) by (auto simp: x1_def max_def)
  have ys: "pos_y q + rect_height rect \<le> viewportHeight - 8 \<longleftrightarrow>
      rect_height rect + 16 \<le> viewportHeight \<and>
      \<not> (viewportHeight - 8 < pos_y p + rect_height rect \<and> pos_y p + rect_height rect \<le> viewportHeight)"
    using q(2) by (auto simp: y1_def max_def)
  have "within_margins viewportWidth viewportHeight rect q \<longleftrightarrow>
      pos_x q + rect_width rect \<le> viewportWidth - 8 \<and> pos_y q + rect_height rect \<le> viewportHeight - 8"
    using lo by (auto simp: within_margins_def)
  with xs ys lo fit show ?thesis by blast
qed

theorem adjustPosition_bounds_witness:
  "adjustPosition (Some \<lparr>rect_width = 200, rect_height = 300\<rparr>) 1280 720 \<lparr>pos_x = 1200, pos_y = 3\<rparr>
     = Some \<lparr>pos_x = 1072, pos_y = 8\<rparr> \<and>
   within_margins 1280 720 \<lparr>rect_width = 200, rect_height = 300\<rparr> \<lparr>pos_x = 1072, pos_y = 8\<rparr>"
proof -
  have e: "adjustPosition (Some \<lparr>rect_width = 200, rect_height = 300\<rparr>) 1280 720
             \<lparr>pos_x = 1200, pos_y = 3\<rparr> = Some \<lparr>pos_x = 1072, pos_y = 8\<rparr>"
    by (simp add: adjustPosition_def)
  from adjustPosition_bounds [OF e] e show ?thesis by simp
qed

text \<open>
  Claim C3. A click on an item that is disabled or has a \<open>children\<close> field calls no
  action and does not call \<open>onClose\<close>. A click on an item that is not a divider, not
  disabled and has no children calls its \<open>onClick\<close> action once and then \<open>onClose\<close>.
\<close>

theorem click_item_activation:
  "(truthy (disabled item) \<or> children item \<noteq> None \<longrightarrow> click_item item = []) \<and>
   (\<not> truthy (divider item) \<and> \<not> truthy (disabled item) \<and> children item = None \<and>
    onClick item = Some a \<longrightarrow> click_item item = [Invoke a, Close])"
  by (cases "MenuItemComponent item")
     (auto simp: click_item_def MenuItemComponent_def handleClick_def split: if_splits)

theorem click_item_activation_witness:
  "click_item (MenuItem ''move-up'' ''Move up'' (Some ''up'') None (Some True) None None None
       (Some (1::nat)) None) = [] \<and>
   click_item (MenuItem ''more'' ''More'' None None None None None (Some [])
       (Some (2::nat)) None) = [] \<and>
   click_item (MenuItem ''delete'' ''Delete'' (Some ''trash'') None None (Some True) None None
       (Some (3::nat)) None) = [Invoke 3, Close]"
  using click_item_activation [of
      "MenuItem ''move-up'' ''Move up'' (Some ''up'') None (Some True) None None None
         (Some (1::nat)) None" 1]
    click_item_activation [of
      "MenuItem ''more'' ''More'' None None None None None (Some [])
         (Some (2::nat)) None" 2]
    click_item_activation [of
      "MenuItem ''delete'' ''Delete'' (Some ''trash'') None None (Some True) None None
         (Some (3::nat)) None" 3]
  by simp

text \<open>
  Claim C10. \<open>hide\<close> sets the open flag to false and leaves the stored position and
  items as they were; after \<open>show\<close> and then \<open>hide\<close> the state still holds the
  position and the items that \<open>show\<close> stored.
\<close>

theorem hide_frame:
  "isOpen (hide s) = False \<and> position (hide s) = position s \<and> items (hide s) = items s \<and>
   hide (show_menu clientX clientY its s0)
     = \<lparr>isOpen = False, position = \<lparr>pos_x = clientX, pos_y = clientY\<rparr>, items = its\<rparr>"
  by (simp add: hide_def show_menu_def)

section \<open>TaskItem: rename, row controls, unresolved definitions\<close>

text \<open>
  Claim C4. When the edit buffer holds white space only, a commit sends
  \<open>renameTask\<close> with the empty name. For every buffer: written as white space \<open>p\<close>,
  then a name \<open>v\<close> that is empty or begins and ends with a character that is not white
  space, then white space \<open>q\<close> (every buffer can be written so), the Enter key, the loss
  of focus and the confirm control each leave the editing state, keep the buffer and send
  \<open>renameTask\<close> with exactly \<open>v\<close>. All three are \<open>handleSaveEdit\<close>.
\<close>

theorem rename_commit_trimmed:
  "((\<forall>c \<in> set (editName s). isWhiteSpace c) \<longrightarrow>
      snd (handleSaveEdit instanceId t s) = [RenameTask instanceId (task_id t) []]) \<and>
   ((\<forall>c \<in> set p. isWhiteSpace c) \<and> (\<forall>c \<in> set q. isWhiteSpace c) \<and>
    (v = [] \<or> \<not> isWhiteSpace (hd v) \<and> \<not> isWhiteSpace (last v)) \<and>
    editName s = p @ v @ q \<longrightarrow>
      handleKeyDown ''Enter'' instanceId t s
        = (s\<lparr>isEditing := False\<rparr>, [RenameTask instanceId (task_id t) v]) \<and>
      onBlur instanceId t s
        = (s\<lparr>isEditing := False\<rparr>, [RenameTask instanceId (task_id t) v]) \<and>
      confirmMouseDown instanceId t s
        = (s\<lparr>isEditing := False\<rparr>, [RenameTask instanceId (task_id t) v])) \<and>
   (\<exists>p' v' q'. editName s = p' @ v' @ q' \<and>
      (\<forall>c \<in> set p'. isWhiteSpace c) \<and> (\<forall>c \<in> set q'. isWhiteSpace c) \<and>
      (v' = [] \<or> \<not> isWhiteSpace (hd v') \<and> \<not> isWhiteSpace (last v'))) \<and>
   handleKeyDown ''Enter'' instanceId t s = handleSaveEdit instanceId t s \<and>
   onBlur instanceId t s = handleSaveEdit instanceId t s \<and>
   confirmMouseDown instanceId t s = handleSaveEdit instanceId t s \<and>
   snd (handleSaveEdit instanceId t s) = [RenameTask instanceId (task_id t) (trim (editName s))] \<and>
   \<not> isEditing (fst (handleSaveEdit instanceId t s))"
proof -
  have a: "(\<forall>c \<in> set (editName s). isWhiteSpace c) \<longrightarrow> trim (editName s) = []"
    by (simp add: trim_def dropWhile_all)
  have b: "(\<forall>c \<in> set p. isWhiteSpace c) \<and> (\<forall>c \<in> set q. isWhiteSpace c) \<and>
    (v = [] \<or> \<not> isWhiteSpace (hd v) \<and> \<not> isWhiteSpace (last v)) \<and>
    editName s = p @ v @ q \<longrightarrow> trim (editName s) = v"
    using trim_decomposed [of p q v] by auto
  have c: "\<exists>p' v' q'. editName s = p' @ v' @ q' \<and>
      (\<forall>c \<in> set p'. isWhiteSpace c) \<and> (\<forall>c \<in> set q'. isWhiteSpace c) \<and>
      (v' = [] \<or> \<not> isWhiteSpace (hd v') \<and> \<not> isWhiteSpace (last v'))"
    by (rule trim_decomposition)
  have d: "handleKeyDown ''Enter'' instanceId t s = handleSaveEdit instanceId t s"
    "onBlur instanceId t s = handleSaveEdit instanceId t s"
    "confirmMouseDown instanceId t s = handleSaveEdit instanceId t s"
    by (simp_all add: handleKeyDown_def onBlur_def confirmMouseDown_def)
  have e: "handleSaveEdit instanceId t s
      = (s\<lparr>isEditing := False\<rparr>, [RenameTask instanceId (task_id t) (trim (editName s))])"
    by (simp add: handleSaveEdit_def)
  from a b c d e show ?thesis by (simp only: d e fst_conv snd_conv) auto
qed

theorem rename_commit_trimmed_witness:
  "snd (handleKeyDown ''Enter'' ''inst''
     \<lparr>task_id = ''a'', taskName = ''t1'', customName = None, enabled = True, expanded = False\<rparr>
     \<lparr>isEditing = True, editName = [0x20, 0x09, 0x3000, 0x20]\<rparr>)
   = [RenameTask ''inst'' ''a'' []] \<and>
   onBlur ''inst''
     \<lparr>task_id = ''a'', taskName = ''t1'', customName = None, enabled = True, expanded = False\<rparr>
     \<lparr>isEditing = True, editName = [0x20, 0x41, 0x20, 0x62, 0x09, 0x20]\<rparr>
   = (\<lparr>isEditing = False, editName = [0x20, 0x41, 0x20, 0x62, 0x09, 0x20]\<rparr>,
      [RenameTask ''inst'' ''a'' [0x41, 0x20, 0x62]])"
  using rename_commit_trimmed [of "\<lparr>isEditing = True, editName = [0x20, 0x09, 0x3000, 0x20]\<rparr>"
      "''inst''"
      "\<lparr>task_id = ''a'', taskName = ''t1'', customName = None, enabled = True, expanded = False\<rparr>"
      "[]" "[]" "[]"]
    rename_commit_trimmed [of "\<lparr>isEditing = True, editName = [0x20, 0x41, 0x20, 0x62, 0x09, 0x20]\<rparr>"
      "''inst''"
      "\<lparr>task_id = ''a'', taskName = ''t1'', customName = None, enabled = True, expanded = False\<rparr>"
      "[0x20]" "[0x09, 0x20]" "[0x41, 0x20, 0x62]"]
  by (simp add: isWhiteSpace_def)

text \<open>
  Claim C5, as stated: in the editing state the enable toggle, the expand button, the
  delete button and the drag handle are all suppressed. It fails: a row that is being
  edited still renders the drag handle and the enable checkbox, and the checkbox still
  toggles the task.
\<close>

theorem editing_row_counterexample:
  "TaskItem (Some \<lparr>task = [\<lparr>name = ''t1'', option_keys = Some [''speed'']\<rparr>]\<rparr>)
     \<lparr>task_id = ''a'', taskName = ''t1'', customName = None, enabled = True, expanded = False\<rparr>
     \<lparr>isEditing = True, editName = []\<rparr> False
   = Some [DragHandle, EnableCheckbox, NameInput, ConfirmButton, CancelButton] \<and>
   activate ''inst''
     \<lparr>task_id = ''a'', taskName = ''t1'', customName = None, enabled = True, expanded = False\<rparr>
     EnableCheckbox = [ToggleTaskEnabled ''inst'' ''a'']"
  by (simp add: TaskItem_def resolveTaskDef_def hasOptions_def)

text \<open>
  Claim C5, amended. A rendered row in the editing state holds no expand button, no
  delete button and no name label (the target of the double click); it holds the input
  with the confirm and cancel buttons, and the drag handle and the enable checkbox stay.
\<close>

theorem editing_row_controls:
  "isEditing s \<and> TaskItem projectInterface t s menuOpen = Some row \<longrightarrow>
     ExpandButton \<notin> set row \<and> DeleteButton \<notin> set row \<and> NameLabel \<notin> set row \<and>
     NameInput \<in> set row \<and> ConfirmButton \<in> set row \<and> CancelButton \<in> set row \<and>
     DragHandle \<in> set row \<and> EnableCheckbox \<in> set row"
  by (auto simp: TaskItem_def split: option.splits)

theorem editing_row_controls_witness:
  "ExpandButton \<notin> set [DragHandle, EnableCheckbox, NameInput, ConfirmButton, CancelButton,
       OptionPanel [''speed'']] \<and>
   TaskItem (Some \<lparr>task = [\<lparr>name = ''t1'', option_keys = Some [''speed'']\<rparr>]\<rparr>)
     \<lparr>task_id = ''a'', taskName = ''t1'', customName = None, enabled = True, expanded = True\<rparr>
     \<lparr>isEditing = True, editName = []\<rparr> False
   = Some [DragHandle, EnableCheckbox, NameInput, ConfirmButton, CancelButton,
       OptionPanel [''speed'']]"
proof -
  have e: "TaskItem (Some \<lparr>task = [\<lparr>name = ''t1'', option_keys = Some [''speed'']\<rparr>]\<rparr>)
     \<lparr>task_id = ''a'', taskName = ''t1'', customName = None, enabled = True, expanded = True\<rparr>
     \<lparr>isEditing = True, editName = []\<rparr> False
   = Some [DragHandle, EnableCheckbox, NameInput, ConfirmButton, CancelButton,
       OptionPanel [''speed'']]"
    by (simp add: TaskItem_def resolveTaskDef_def hasOptions_def)
  from editing_row_controls [of "\<lparr>isEditing = True, editName = []\<rparr>"
      "Some \<lparr>task = [\<lparr>name = ''t1'', option_keys = Some [''speed'']\<rparr>]\<rparr>"
      "\<lparr>task_id = ''a'', taskName = ''t1'', customName = None, enabled = True, expanded = True\<rparr>"
      False
      "[DragHandle, EnableCheckbox, NameInput, ConfirmButton, CancelButton, OptionPanel [''speed'']]"]
    e show ?thesis by simp
qed

text \<open>
  The call of \<open>TaskItem\<close> itself returns null when no definition of the project
  interface has the task's \<open>taskName\<close>, and when there is no project interface.
\<close>

lemma TaskItem_null_when_unresolved:
  "((\<forall>d \<in> set (task iface). name d \<noteq> taskName t) \<longrightarrow>
      TaskItem (Some iface) t s menuOpen = None) \<and>
   TaskItem None t s menuOpen = None"
  by (simp add: TaskItem_def resolveTaskDef_def find_none_name)

text \<open>
  A row that rendered with its definition resolved and is rendered again after the
  definition is gone calls one hook fewer, and React throws; the other way round it
  calls one hook more, and React throws as well.
\<close>

lemma rerender_after_resolution_changed:
  "(resolveTaskDef pi1 t \<noteq> None \<and> resolveTaskDef pi2 t = None \<longrightarrow>
      render_TaskItem (Some (TaskItem_hooks pi1 t)) pi2 t s menuOpen = Inl RenderedFewerHooks) \<and>
   (resolveTaskDef pi1 t = None \<and> resolveTaskDef pi2 t \<noteq> None \<longrightarrow>
      render_TaskItem (Some (TaskItem_hooks pi1 t)) pi2 t s menuOpen = Inl RenderedMoreHooks)"
  by (auto simp: render_TaskItem_def renderWithHooks_def TaskItem_hooks_def)

text \<open>
  Claim C9 says that a task whose definition is not found renders nothing and raises no
  failure. That holds for a row that mounts without its definition (also with no
  project interface at all). It does not hold for a mounted row whose definition
  disappears: with the definition \<open>t1\<close> the row renders its controls; rendered again
  with an interface that has lost \<open>t1\<close>, the call returns null before it reaches
  \<open>useCallback\<close>, and React throws instead of rendering nothing. A row mounted before
  the interface is loaded throws when the interface arrives.
\<close>

theorem stale_definition_rerender_throws:
  "render_TaskItem None (Some \<lparr>task = [\<lparr>name = ''t1'', option_keys = None\<rparr>]\<rparr>)
     \<lparr>task_id = ''a'', taskName = ''t1'', customName = None, enabled = True, expanded = False\<rparr>
     \<lparr>isEditing = False, editName = []\<rparr> False
   = Inr (Some [DragHandle, EnableCheckbox, NameLabel, DeleteButton]) \<and>
   TaskItem (Some \<lparr>task = []\<rparr>)
     \<lparr>task_id = ''a'', taskName = ''t1'', customName = None, enabled = True, expanded = False\<rparr>
     \<lparr>isEditing = False, editName = []\<rparr> False
   = None \<and>
   render_TaskItem
     (Some (TaskItem_hooks (Some \<lparr>task = [\<lparr>name = ''t1'', option_keys = None\<rparr>]\<rparr>)
        \<lparr>task_id = ''a'', taskName = ''t1'', customName = None, enabled = True, expanded = False\<rparr>))
     (Some \<lparr>task = []\<rparr>)
     \<lparr>task_id = ''a'', taskName = ''t1'', customName = None, enabled = True, expanded = False\<rparr>
     \<lparr>isEditing = False, editName = []\<rparr> False
   = Inl RenderedFewerHooks \<and>
   render_TaskItem None None
     \<lparr>task_id = ''a'', taskName = ''t1'', customName = None, enabled = True, expanded = False\<rparr>
     \<lparr>isEditing = False, editName = []\<rparr> False
   = Inr None \<and>
   render_TaskItem
     (Some (TaskItem_hooks None
        \<lparr>task_id = ''a'', taskName = ''t1'', customName = None, enabled = True, expanded = False\<rparr>))
     (Some \<lparr>task = [\<lparr>name = ''t1'', option_keys = None\<rparr>]\<rparr>)
     \<lparr>task_id = ''a'', taskName = ''t1'', customName = None, enabled = True, expanded = False\<rparr>
     \<lparr>isEditing = False, editName = []\<rparr> False
   = Inl RenderedMoreHooks"
  by (simp add: render_TaskItem_def renderWithHooks_def TaskItem_hooks_def TaskItem_def
      resolveTaskDef_def hasOptions_def)

section \<open>OnboardingOverlay: the dismissed phase is stable\<close>

lemma watcherEffect_hidden: "\<not> isVisible s \<or> onboardingCompleted s \<Longrightarrow> watcherEffect s = s"
  by (simp add: watcherEffect_def)

lemma commit_same_completed:
  "onboardingCompleted old = onboardingCompleted s \<Longrightarrow>
   commit old b s =
     (if mounted s \<and> (isVisible old \<noteq> isVisible s \<or> activeInstanceId old \<noteq> activeInstanceId s \<or> b)
      then watcherEffect s else s)"
  by (simp add: commit_def Let_def)

lemma dismissed_store_update:
  "dismissed s \<Longrightarrow> dismissed (store_update e s)"
  by (cases e) (simp_all add: dismissed_def)

lemma dismissed_commit:
  "dismissed s \<Longrightarrow> onboardingCompleted old \<Longrightarrow> commit old b s = s"
  by (simp add: commit_same_completed dismissed_def watcherEffect_hidden)

lemma dismissed_clearTimeout: "dismissed s \<Longrightarrow> dismissed (clearTimeout x s)"
  by (simp add: dismissed_def clearTimeout_def)

lemma dismissed_runCallback_FinishExit:
  "dismissed s \<Longrightarrow> dismissed (runCallback FinishExit s)"
proof -
  assume d: "dismissed s"
  then have e: "s\<lparr>isVisible := False, onboardingCompleted := True\<rparr> = s"
    by (simp add: dismissed_def)
  show ?thesis
  proof (cases "mounted s")
    case True
    with d e show ?thesis by (simp add: dismissed_commit dismissed_def)
  next
    case False
    with d show ?thesis by (simp add: dismissed_def)
  qed
qed

lemma find_Some_in: "List.find p xs = Some x \<Longrightarrow> x \<in> set xs \<and> p x"
  by (induction xs) (auto split: if_splits)

lemma dismissed_fire: "dismissed s \<Longrightarrow> dismissed (fire x s)"
proof (cases "List.find (\<lambda>t. timer_id t = x) (timers s)")
  case None
  assume "dismissed s"
  with None show ?thesis by (simp add: fire_def)
next
  case (Some t)
  assume d: "dismissed s"
  from Some have "t \<in> set (timers s)" by (simp add: find_Some_in)
  with d have "callback t = FinishExit" by (cases "callback t") (auto simp: dismissed_def)
  with Some d show ?thesis
    by (simp add: fire_def dismissed_clearTimeout dismissed_runCallback_FinishExit del: runCallback.simps)
qed

lemma dismissed_fold_fire: "dismissed s \<Longrightarrow> dismissed (fold fire xs s)"
  by (induction xs arbitrary: s) (simp_all add: dismissed_fire)

lemma dismissed_tick: "dismissed s \<Longrightarrow> dismissed (tick s)"
proof -
  assume "dismissed s"
  then have "dismissed (s\<lparr>now := now s + 1\<rparr>)" by (simp add: dismissed_def)
  then show ?thesis by (simp add: tick_def Let_def dismissed_fold_fire)
qed

lemma dismissed_advance: "dismissed s \<Longrightarrow> dismissed (advance n s)"
  by (induction n arbitrary: s) (simp_all add: dismissed_tick)

lemma dismissed_step: "dismissed s \<Longrightarrow> dismissed (step e s)"
proof (cases e)
  case Unmount
  assume "dismissed s"
  then show ?thesis using Unmount
    by (auto simp: unmount_def displayCleanup_def clearTimeout_def dismissed_def split: option.splits)
next
  case (Elapse n)
  assume "dismissed s"
  then show ?thesis using Elapse by (simp add: dismissed_advance)
next
  case ClickDismiss
  assume "dismissed s"
  then show ?thesis using ClickDismiss by (simp add: dismissed_def)
next
  case (SetConnectionStatus i c)
  assume d: "dismissed s"
  then have "dismissed (store_update e s)" by (rule dismissed_store_update)
  moreover from d have "onboardingCompleted s" by (simp add: dismissed_def)
  ultimately show ?thesis using SetConnectionStatus by (simp add: dismissed_commit del: store_update.simps)
next
  case (SetResourceLoaded i b)
  assume d: "dismissed s"
  then have "dismissed (store_update e s)" by (rule dismissed_store_update)
  moreover from d have "onboardingCompleted s" by (simp add: dismissed_def)
  ultimately show ?thesis using SetResourceLoaded by (simp add: dismissed_commit del: store_update.simps)
next
  case (SetActiveInstance a)
  assume d: "dismissed s"
  then have "dismissed (store_update e s)" by (rule dismissed_store_update)
  moreover from d have "onboardingCompleted s" by (simp add: dismissed_def)
  ultimately show ?thesis using SetActiveInstance by (simp add: dismissed_commit del: store_update.simps)
qed

lemma dismissed_run: "dismissed s \<Longrightarrow> dismissed (run es s)"
  by (induction es arbitrary: s) (simp_all add: dismissed_step)

lemma dismissed_mount: "dismissed (mount True cs rl ai)"
  by (simp add: mount_def displayEffect_def watcherEffect_def dismissed_def)

section \<open>OnboardingOverlay: the timer queue stays consistent\<close>

lemma mounted_handleDismiss [simp]: "mounted (handleDismiss s) = mounted s"
  by (simp add: handleDismiss_def setTimeout_def)

lemma mounted_watcherEffect [simp]: "mounted (watcherEffect s) = mounted s"
  by (simp add: watcherEffect_def Let_def split: option.split)

lemma mounted_displayCleanup [simp]: "mounted (displayCleanup s) = mounted s"
  by (simp add: displayCleanup_def clearTimeout_def split: option.split)

lemma mounted_displayEffect [simp]: "mounted (displayEffect s) = mounted s"
  by (simp add: displayEffect_def setTimeout_def)

lemma mounted_commit [simp]: "mounted (commit old b s) = mounted s"
  by (simp add: commit_def Let_def)

lemma mounted_runCallback [simp]: "mounted (runCallback cb s) = mounted s"
  by (cases cb) simp_all

lemma mounted_fire [simp]: "mounted (fire x s) = mounted s"
  by (simp add: fire_def clearTimeout_def split: option.split del: runCallback.simps)

lemma mounted_fold_fire [simp]: "mounted (fold fire xs s) = mounted s"
  by (induction xs arbitrary: s) simp_all

lemma mounted_tick [simp]: "mounted (tick s) = mounted s"
  by (simp add: tick_def Let_def)

lemma mounted_advance [simp]: "mounted (advance n s) = mounted s"
  by (induction n arbitrary: s) simp_all

lemma queue_ok_handleDismiss: "queue_ok s \<Longrightarrow> queue_ok (handleDismiss s)"
  by (auto simp: queue_ok_def handleDismiss_def setTimeout_def)

lemma queue_ok_watcherEffect: "queue_ok s \<Longrightarrow> queue_ok (watcherEffect s)"
  by (simp add: watcherEffect_def Let_def queue_ok_handleDismiss split: option.split)

lemma queue_ok_commit_same:
  "queue_ok s \<Longrightarrow> onboardingCompleted old = onboardingCompleted s \<Longrightarrow> queue_ok (commit old b s)"
  by (simp add: commit_same_completed queue_ok_watcherEffect)

lemma queue_ok_store_update: "queue_ok s \<Longrightarrow> queue_ok (store_update e s)"
  by (cases e) (simp_all add: queue_ok_def)

lemma completed_store_update [simp]:
  "onboardingCompleted (store_update e s) = onboardingCompleted s"
  by (cases e) simp_all

lemma queue_ok_unmount: "queue_ok s \<Longrightarrow> queue_ok (unmount s)"
  by (auto simp: queue_ok_def unmount_def displayCleanup_def clearTimeout_def split: option.splits)

text \<open>Firing the display timer.\<close>

lemma queue_ok_show:
  assumes "queue_ok s" and "t \<in> set (timers s)" and "callback t = ShowOverlay"
  shows "queue_ok (runCallback ShowOverlay (clearTimeout (timer_id t) s))"
proof -
  let ?s1 = "clearTimeout (timer_id t) s"
  from assms have m: "mounted ?s1" by (auto simp: queue_ok_def clearTimeout_def)
  from assms have ref: "timeoutRef s = Some (timer_id t)" by (simp add: queue_ok_def)
  have only: "\<forall>u \<in> set (timers s). callback u = ShowOverlay \<longrightarrow> timer_id u = timer_id t"
  proof (intro ballI impI)
    fix u assume "u \<in> set (timers s)" "callback u = ShowOverlay"
    with assms(1) have "timeoutRef s = Some (timer_id u)" by (simp add: queue_ok_def)
    with ref show "timer_id u = timer_id t" by simp
  qed
  have "\<forall>u \<in> set (timers ?s1). callback u \<noteq> ShowOverlay"
    using only by (auto simp: clearTimeout_def)
  moreover have "queue_ok ?s1" using assms(1) by (auto simp: queue_ok_def clearTimeout_def)
  ultimately have q: "queue_ok (?s1\<lparr>isVisible := True\<rparr>)"
    by (simp add: queue_ok_def)
  have "runCallback ShowOverlay ?s1 = commit ?s1 False (?s1\<lparr>isVisible := True\<rparr>)"
    using m by simp
  with q show ?thesis by (simp add: queue_ok_commit_same del: runCallback.simps)
qed

text \<open>Firing the exit timer of a mounted overlay ends in the dismissed state.\<close>

lemma finish_mounted:
  assumes "queue_ok s" and "mounted s"
  shows "queue_ok (runCallback FinishExit s) \<and> dismissed (runCallback FinishExit s)"
proof (cases "onboardingCompleted s")
  case True
  let ?s1 = "s\<lparr>isVisible := False, onboardingCompleted := True\<rparr>"
  from True assms have r: "runCallback FinishExit s = ?s1"
    by (simp add: commit_same_completed watcherEffect_hidden)
  from True assms(1) have "queue_ok ?s1 \<and> dismissed ?s1"
    by (auto simp: queue_ok_def dismissed_def)
  with r show ?thesis by simp
next
  case False
  let ?s1 = "s\<lparr>isVisible := False, onboardingCompleted := True\<rparr>"
  let ?s2 = "(displayCleanup ?s1)\<lparr>cleanupRegistered := False\<rparr>"
  from False assms(2) have r: "runCallback FinishExit s = ?s2"
    by (simp add: commit_def Let_def displayEffect_def watcherEffect_def displayCleanup_def
        clearTimeout_def split: option.split)
  from assms(1) have "queue_ok ?s2 \<and> dismissed ?s2"
    by (auto simp: queue_ok_def dismissed_def displayCleanup_def clearTimeout_def
        split: option.splits)
  with r show ?thesis by simp
qed

lemma queue_ok_finish:
  assumes "queue_ok s"
  shows "queue_ok (runCallback FinishExit s)"
proof (cases "mounted s")
  case True
  with assms show ?thesis using finish_mounted by blast
next
  case False
  with assms show ?thesis by (auto simp: queue_ok_def)
qed

lemma queue_ok_clearTimeout: "queue_ok s \<Longrightarrow> queue_ok (clearTimeout x s)"
  by (auto simp: queue_ok_def clearTimeout_def)

lemma queue_ok_fire: "queue_ok s \<Longrightarrow> queue_ok (fire x s)"
proof (cases "List.find (\<lambda>t. timer_id t = x) (timers s)")
  case None
  assume "queue_ok s"
  with None show ?thesis by (simp add: fire_def)
next
  case (Some t)
  assume q: "queue_ok s"
  from Some have t: "t \<in> set (timers s)" "timer_id t = x" using find_Some_in by fastforce+
  show ?thesis
  proof (cases "callback t")
    case ShowOverlay
    with q t Some show ?thesis using queue_ok_show [of s t]
      by (simp add: fire_def del: runCallback.simps)
  next
    case FinishExit
    with q Some show ?thesis
      by (simp add: fire_def queue_ok_finish queue_ok_clearTimeout del: runCallback.simps)
  qed
qed

lemma queue_ok_fold_fire: "queue_ok s \<Longrightarrow> queue_ok (fold fire xs s)"
  by (induction xs arbitrary: s) (simp_all add: queue_ok_fire)

lemma queue_ok_tick: "queue_ok s \<Longrightarrow> queue_ok (tick s)"
proof -
  assume "queue_ok s"
  then have "queue_ok (s\<lparr>now := now s + 1\<rparr>)" by (simp add: queue_ok_def)
  then show ?thesis by (simp add: tick_def Let_def queue_ok_fold_fire)
qed

lemma queue_ok_advance: "queue_ok s \<Longrightarrow> queue_ok (advance n s)"
  by (induction n arbitrary: s) (simp_all add: queue_ok_tick)

lemma queue_ok_step: "queue_ok s \<Longrightarrow> queue_ok (step e s)"
  by (cases e)
     (simp_all add: queue_ok_unmount queue_ok_advance queue_ok_handleDismiss
        queue_ok_commit_same queue_ok_store_update del: store_update.simps)

lemma queue_ok_run: "queue_ok s \<Longrightarrow> queue_ok (run es s)"
  by (induction es arbitrary: s) (simp_all add: queue_ok_step)

lemma queue_ok_mount: "queue_ok (mount completed cs rl ai)"
  by (simp add: mount_def displayEffect_def setTimeout_def watcherEffect_hidden queue_ok_def)

section \<open>OnboardingOverlay: a queued exit timer fires\<close>

lemma now_handleDismiss [simp]: "now (handleDismiss s) = now s"
  by (simp add: handleDismiss_def setTimeout_def)

lemma now_watcherEffect [simp]: "now (watcherEffect s) = now s"
  by (simp add: watcherEffect_def Let_def split: option.split)

lemma now_displayCleanup [simp]: "now (displayCleanup s) = now s"
  by (simp add: displayCleanup_def clearTimeout_def split: option.split)

lemma now_displayEffect [simp]: "now (displayEffect s) = now s"
  by (simp add: displayEffect_def setTimeout_def)

lemma now_commit [simp]: "now (commit old b s) = now s"
  by (simp add: commit_def Let_def)

lemma now_runCallback [simp]: "now (runCallback cb s) = now s"
  by (cases cb) simp_all

lemma now_fire [simp]: "now (fire x s) = now s"
  by (simp add: fire_def clearTimeout_def split: option.split del: runCallback.simps)

lemma now_fold_fire [simp]: "now (fold fire xs s) = now s"
  by (induction xs arbitrary: s) simp_all

lemma now_tick [simp]: "now (tick s) = now s + 1"
  by (simp add: tick_def Let_def)

lemma isVisible_handleDismiss [simp]: "isVisible (handleDismiss s) = isVisible s"
  by (simp add: handleDismiss_def setTimeout_def)

lemma isVisible_watcherEffect [simp]: "isVisible (watcherEffect s) = isVisible s"
  by (simp add: watcherEffect_def Let_def split: option.split)

lemma timers_handleDismiss:
  "timers (handleDismiss s) =
     timers s @ [\<lparr>timer_id = nextTimerId s, due = now s + 200, callback = FinishExit\<rparr>]"
  by (simp add: handleDismiss_def setTimeout_def)

lemma timers_watcherEffect: "t \<in> set (timers s) \<Longrightarrow> t \<in> set (timers (watcherEffect s))"
  by (simp add: watcherEffect_def Let_def timers_handleDismiss split: option.split)

lemma fire_exit:
  assumes "queue_ok s" and "mounted s" and "t \<in> set (timers s)" and "callback t = FinishExit"
  shows "dismissed (fire x s) \<or> (t \<in> set (timers (fire x s)) \<and> x \<noteq> timer_id t)"
proof (cases "List.find (\<lambda>u. timer_id u = x) (timers s)")
  case None
  then have "\<not> (\<exists>u \<in> set (timers s). timer_id u = x)" by (simp add: find_None_iff)
  with assms(3) have "x \<noteq> timer_id t" by blast
  with None assms(3) show ?thesis by (simp add: fire_def)
next
  case (Some u)
  then have u: "u \<in> set (timers s)" "timer_id u = x" using find_Some_in by fastforce+
  let ?s1 = "clearTimeout x s"
  have q1: "queue_ok ?s1" using assms(1) by (rule queue_ok_clearTimeout)
  have m1: "mounted ?s1" using assms(2) by (simp add: clearTimeout_def)
  show ?thesis
  proof (cases "callback u")
    case FinishExit
    with Some have "fire x s = runCallback FinishExit ?s1"
      by (simp add: fire_def del: runCallback.simps)
    with finish_mounted [OF q1 m1] show ?thesis by simp
  next
    case ShowOverlay
    with assms(1) u have "timeoutRef s = Some x" by (auto simp: queue_ok_def)
    moreover from assms have "timeoutRef s \<noteq> Some (timer_id t)" by (simp add: queue_ok_def)
    ultimately have ne: "x \<noteq> timer_id t" by auto
    with assms(3) have t1: "t \<in> set (timers (?s1\<lparr>isVisible := True\<rparr>))"
      by (simp add: clearTimeout_def)
    from ShowOverlay Some have "fire x s = runCallback ShowOverlay ?s1"
      by (simp add: fire_def del: runCallback.simps)
    also have "\<dots> = watcherEffect (?s1\<lparr>isVisible := True\<rparr>) \<or> \<dots> = ?s1\<lparr>isVisible := True\<rparr>"
      using m1 by (simp add: commit_same_completed)
    finally have "t \<in> set (timers (fire x s))"
      using t1 timers_watcherEffect [OF t1] by auto
    with ne show ?thesis by simp
  qed
qed

lemma fold_fire_exit:
  assumes "callback t = FinishExit"
  shows "queue_ok s \<Longrightarrow> mounted s \<Longrightarrow> dismissed s \<or> t \<in> set (timers s) \<Longrightarrow>
     dismissed (fold fire xs s) \<or> (t \<in> set (timers (fold fire xs s)) \<and> timer_id t \<notin> set xs)"
proof (induction xs arbitrary: s)
  case Nil
  then show ?case by simp
next
  case (Cons x xs)
  have q: "queue_ok (fire x s)" using Cons.prems(1) by (rule queue_ok_fire)
  have m: "mounted (fire x s)" using Cons.prems(2) by simp
  show ?case
  proof (cases "dismissed (fire x s)")
    case True
    then show ?thesis by (simp add: dismissed_fold_fire)
  next
    case False
    with Cons.prems have nd: "\<not> dismissed s" using dismissed_fire by blast
    with Cons.prems have "t \<in> set (timers s)" by simp
    from fire_exit [OF Cons.prems(1,2) this assms, of x] False
    have t: "t \<in> set (timers (fire x s))" and ne: "x \<noteq> timer_id t" by simp_all
    from Cons.IH [OF q m] t
    have "dismissed (fold fire xs (fire x s)) \<or>
          (t \<in> set (timers (fold fire xs (fire x s))) \<and> timer_id t \<notin> set xs)" by simp
    with ne show ?thesis by auto
  qed
qed

lemma tick_exit:
  assumes "queue_ok s" and "mounted s" and "t \<in> set (timers s)" and "callback t = FinishExit"
  shows "dismissed (tick s) \<or> (t \<in> set (timers (tick s)) \<and> now s + 1 < due t)"
proof -
  let ?s1 = "s\<lparr>now := now s + 1\<rparr>"
  let ?ids = "map timer_id (filter (\<lambda>u. due u \<le> now s + 1) (timers s))"
  have q: "queue_ok ?s1" using assms(1) by (simp add: queue_ok_def)
  have m: "mounted ?s1" using assms(2) by simp
  have t: "dismissed ?s1 \<or> t \<in> set (timers ?s1)" using assms(3) by simp
  have e: "tick s = fold fire ?ids ?s1" by (simp add: tick_def Let_def)
  from fold_fire_exit [OF assms(4) q m t, of ?ids]
  have "dismissed (tick s) \<or> (t \<in> set (timers (tick s)) \<and> timer_id t \<notin> set ?ids)"
    by (simp only: e)
  moreover have "timer_id t \<notin> set ?ids \<Longrightarrow> now s + 1 < due t"
    using assms(3) by force
  ultimately show ?thesis by blast
qed

lemma advance_exit:
  assumes "callback t = FinishExit"
  shows "queue_ok s \<Longrightarrow> mounted s \<Longrightarrow> t \<in> set (timers s) \<Longrightarrow> now s < due t \<Longrightarrow>
     due t \<le> now s + n \<Longrightarrow> dismissed (advance n s)"
proof (induction n arbitrary: s)
  case 0
  then show ?case by simp
next
  case (Suc n)
  from tick_exit [OF Suc.prems(1,2,3) assms]
  show ?case
  proof
    assume "dismissed (tick s)"
    then show ?thesis by (simp add: dismissed_advance)
  next
    assume a: "t \<in> set (timers (tick s)) \<and> now s + 1 < due t"
    have "dismissed (advance n (tick s))"
    proof (rule Suc.IH)
      show "queue_ok (tick s)" using Suc.prems(1) by (rule queue_ok_tick)
      show "mounted (tick s)" using Suc.prems(2) by simp
      show "t \<in> set (timers (tick s))" using a by simp
      show "now (tick s) < due t" using a by simp
      show "due t \<le> now (tick s) + n" using Suc.prems(5) by simp
    qed
    then show ?thesis by simp
  qed
qed

lemma pending_mount: "pending 500 (mount False cs rl ai)"
  by (simp add: pending_def mount_def displayEffect_def setTimeout_def watcherEffect_hidden)

lemma pending_tick: "pending (Suc (Suc r)) s \<Longrightarrow> pending (Suc r) (tick s)"
  by (cases "timers s") (auto simp: pending_def tick_def Let_def)

lemma pending_show: "pending (Suc 0) s \<Longrightarrow> isVisible (tick s)"
  by (cases "timers s")
     (auto simp: pending_def tick_def Let_def fire_def clearTimeout_def commit_same_completed)

lemma pending_advance:
  "pending r s \<Longrightarrow> (n < r \<longrightarrow> pending (r - n) (advance n s)) \<and> (n = r \<longrightarrow> isVisible (advance n s))"
proof (induction n arbitrary: r s)
  case 0
  then show ?case by (simp add: pending_def)
next
  case (Suc n)
  from Suc.prems have "0 < r" by (simp add: pending_def)
  then obtain r' where r: "r = Suc r'" by (cases r) auto
  show ?case
  proof (cases r')
    case 0
    with Suc.prems r show ?thesis using pending_show by (cases n) auto
  next
    case (Suc k)
    with Suc.prems r have "pending (Suc k) (tick s)" using pending_tick by simp
    from Suc.IH [OF this] Suc r show ?thesis by simp
  qed
qed

lemma pending_step:
  assumes "pending r s" and "e \<noteq> Unmount" and "\<forall>n. e \<noteq> Elapse n"
  shows "pending r (step e s)"
proof -
  have st: "pending r (store_update e s)" using assms(1) by (cases e) (simp_all add: pending_def)
  then have w: "watcherEffect (store_update e s) = store_update e s"
    by (simp add: watcherEffect_hidden pending_def)
  show ?thesis using assms st w
    by (cases e) (simp_all add: commit_same_completed pending_def del: store_update.simps)
qed

lemma isVisible_step:
  assumes "isVisible s" and "\<forall>n. e = Elapse n \<longrightarrow> n = 0"
  shows "isVisible (step e s)"
  using assms
  by (cases e)
     (simp_all add: commit_same_completed unmount_def displayCleanup_def clearTimeout_def
        split: option.split)

lemma isVisible_run:
  "isVisible s \<Longrightarrow> elapsed es = 0 \<Longrightarrow> isVisible (run es s)"
proof (induction es arbitrary: s)
  case Nil
  then show ?case by simp
next
  case (Cons e es)
  from Cons.prems(2) have z: "\<forall>n. e = Elapse n \<longrightarrow> n = 0" and r: "elapsed es = 0"
    by (cases e; simp)+
  from Cons.IH [OF isVisible_step [OF Cons.prems(1) z] r] show ?case by simp
qed

lemma pending_run:
  "pending r s \<Longrightarrow> Unmount \<notin> set es \<Longrightarrow>
     (elapsed es < r \<longrightarrow> pending (r - elapsed es) (run es s)) \<and>
     (elapsed es = r \<longrightarrow> isVisible (run es s))"
proof (induction es arbitrary: r s)
  case Nil
  then show ?case by (simp add: pending_def)
next
  case (Cons e es)
  from Cons.prems(2) have nu: "e \<noteq> Unmount" "Unmount \<notin> set es" by auto
  show ?case
  proof (cases "\<exists>n. e = Elapse n")
    case False
    then have "pending r (step e s)" using pending_step [OF Cons.prems(1) nu(1)] by blast
    from Cons.IH [OF this nu(2)] False show ?thesis by (cases e) simp_all
  next
    case True
    then obtain n where e: "e = Elapse n" by blast
    from pending_advance [OF Cons.prems(1), of n]
    have a: "n < r \<longrightarrow> pending (r - n) (advance n s)" "n = r \<longrightarrow> isVisible (advance n s)"
      by simp_all
    show ?thesis
    proof (intro conjI impI)
      assume "elapsed (e # es) < r"
      with e have lt: "n < r" "elapsed es < r - n" by simp_all
      with a have "pending (r - n) (advance n s)" by simp
      from Cons.IH [OF this nu(2)] lt e show "pending (r - elapsed (e # es)) (run (e # es) s)"
        by simp
    next
      assume eq: "elapsed (e # es) = r"
      show "isVisible (run (e # es) s)"
      proof (cases "n = r")
        case True
        with eq e have "elapsed es = 0" by simp
        with a True e show ?thesis by (simp add: isVisible_run)
      next
        case False
        with eq e have lt: "n < r" "elapsed es = r - n" by simp_all
        with a have "pending (r - n) (advance n s)" by simp
        from Cons.IH [OF this nu(2)] lt e show ?thesis by simp
      qed
    qed
  qed
qed

section \<open>OnboardingOverlay: idle time and concrete runs\<close>

lemma tick_idle: "\<forall>t \<in> set (timers s). now s + 1 < due t \<Longrightarrow> tick s = s\<lparr>now := now s + 1\<rparr>"
proof -
  assume "\<forall>t \<in> set (timers s). now s + 1 < due t"
  then have "filter (\<lambda>t. due t \<le> now s + 1) (timers s) = []"
    by (auto simp: filter_empty_conv)
  then show ?thesis by (simp add: tick_def Let_def)
qed

lemma advance_idle:
  "\<forall>t \<in> set (timers s). now s + n < due t \<Longrightarrow> advance n s = s\<lparr>now := now s + n\<rparr>"
proof (induction n arbitrary: s)
  case 0
  then show ?case by simp
next
  case (Suc n)
  then have "tick s = s\<lparr>now := now s + 1\<rparr>" by (intro tick_idle) auto
  moreover from Suc.prems
  have "\<forall>t \<in> set (timers (s\<lparr>now := now s + 1\<rparr>)). now (s\<lparr>now := now s + 1\<rparr>) + n < due t"
    by simp
  ultimately show ?case using Suc.IH [of "s\<lparr>now := now s + 1\<rparr>"] by simp
qed

lemma advance_add: "advance (m + n) s = advance n (advance m s)"
  by (induction m arbitrary: s) simp_all

lemma advance_one: "advance 1 s = tick s"
  by simp

lemma advance_then_tick:
  "\<forall>t \<in> set (timers s). now s + n < due t \<Longrightarrow> advance (n + 1) s = tick (s\<lparr>now := now s + n\<rparr>)"
  by (simp only: advance_add advance_idle advance_one)


lemma mount_pending_state:
  "mount False statuses loaded activeId =
     \<lparr>onboardingCompleted = False, instanceConnectionStatus = statuses,
      instanceResourceLoaded = loaded, activeInstanceId = activeId,
      mounted = True, isVisible = False, isExiting = False, timeoutRef = Some 1,
      cleanupRegistered = True, now = 0, nextTimerId = 2,
      timers = [\<lparr>timer_id = 1, due = 500, callback = ShowOverlay\<rparr>], staleUpdates = 0\<rparr>"
  by (simp add: mount_def displayEffect_def setTimeout_def watcherEffect_def)

lemma shown_state:
  "advance 500 (mount False Map.empty loaded activeId) =
     \<lparr>onboardingCompleted = False, instanceConnectionStatus = Map.empty,
      instanceResourceLoaded = loaded, activeInstanceId = activeId,
      mounted = True, isVisible = True, isExiting = False, timeoutRef = Some 1,
      cleanupRegistered = True, now = 500, nextTimerId = 2,
      timers = [], staleUpdates = 0\<rparr>"
proof -
  let ?m = "mount False Map.empty loaded activeId"
  have "advance (499 + 1) ?m = tick (?m\<lparr>now := now ?m + 499\<rparr>)"
    by (rule advance_then_tick) (simp add: mount_pending_state)
  then show ?thesis
    by (simp add: mount_pending_state tick_def fire_def clearTimeout_def commit_def
        watcherEffect_def Let_def split: option.split)
qed

lemma unmounted_exiting_state:
  "run [Elapse 500, ClickDismiss, Unmount] (mount False Map.empty loaded activeId) =
     \<lparr>onboardingCompleted = False, instanceConnectionStatus = Map.empty,
      instanceResourceLoaded = loaded, activeInstanceId = activeId,
      mounted = False, isVisible = True, isExiting = True, timeoutRef = Some 1,
      cleanupRegistered = True, now = 500, nextTimerId = 3,
      timers = [\<lparr>timer_id = 2, due = 700, callback = FinishExit\<rparr>], staleUpdates = 0\<rparr>"
  by (simp add: shown_state handleDismiss_def setTimeout_def unmount_def displayCleanup_def
      clearTimeout_def)

lemma run_snoc: "run (es @ [e]) s = step e (run es s)"
  by (induction es arbitrary: s) simp_all

section \<open>OnboardingOverlay: display, automatic dismissal, completed flag, unmount\<close>

text \<open>
  Claim C6. Started with the completed flag false and not unmounted, the overlay
  renders nothing before 500 ms have passed and is visible when 500 ms have passed,
  whatever the store did meanwhile. In every state a mounted overlay can reach in which
  it is visible and onboarding is not completed: when the status of the active instance
  becomes \<open>'Connected'\<close> while its resource-loaded flag is true (or the flag becomes
  true while the status is \<open>'Connected'\<close>), the overlay does what a click on the
  backdrop does after that store write, it shows its leaving animation, and 200 ms
  later it renders nothing and the completed flag of the store is true.
\<close>

theorem onboarding_auto_dismiss:
  "(Unmount \<notin> set es \<and> elapsed es < 500 \<longrightarrow>
      OnboardingOverlay (run es (mount False statuses loaded activeId)) = None) \<and>
   (Unmount \<notin> set es \<and> elapsed es = 500 \<longrightarrow>
      isVisible (run es (mount False statuses loaded activeId))) \<and>
   (s = run es' (mount completed statuses' loaded' activeId') \<and>
    mounted s \<and> isVisible s \<and> \<not> onboardingCompleted s \<and>
    activeInstanceId s = Some i \<and> i \<noteq> [] \<and>
    (e = SetConnectionStatus i ''Connected'' \<and> instanceResourceLoaded s i = Some True \<or>
     e = SetResourceLoaded i True \<and> instanceConnectionStatus s i = Some ''Connected'') \<longrightarrow>
      step e s = step ClickDismiss (store_update e s) \<and>
      OnboardingOverlay (step e s) = Some Leaving \<and>
      OnboardingOverlay (advance 200 (step e s)) = None \<and>
      onboardingCompleted (advance 200 (step e s)))"
proof (intro conjI impI)
  assume "Unmount \<notin> set es \<and> elapsed es < 500"
  with pending_run [OF pending_mount, of es statuses loaded activeId]
  have "pending (500 - elapsed es) (run es (mount False statuses loaded activeId))" by simp
  then show "OnboardingOverlay (run es (mount False statuses loaded activeId)) = None"
    by (simp add: pending_def OnboardingOverlay_def)
next
  assume "Unmount \<notin> set es \<and> elapsed es = 500"
  with pending_run [OF pending_mount, of es statuses loaded activeId]
  show "isVisible (run es (mount False statuses loaded activeId))" by simp
next
  assume h: "s = run es' (mount completed statuses' loaded' activeId') \<and>
    mounted s \<and> isVisible s \<and> \<not> onboardingCompleted s \<and>
    activeInstanceId s = Some i \<and> i \<noteq> [] \<and>
    (e = SetConnectionStatus i ''Connected'' \<and> instanceResourceLoaded s i = Some True \<or>
     e = SetResourceLoaded i True \<and> instanceConnectionStatus s i = Some ''Connected'')"
  let ?u = "store_update e s"
  from h have q: "queue_ok s" using queue_ok_run [OF queue_ok_mount] by simp
  from h have u: "mounted ?u" "isVisible ?u" "\<not> onboardingCompleted ?u" by auto
  from h have w: "watcherEffect ?u = handleDismiss ?u"
    by (auto simp: watcherEffect_def)
  from h have st: "step e s = commit s True ?u" by auto
  with u w have sd: "step e s = handleDismiss ?u" by (simp add: commit_same_completed)
  from u have cd: "step ClickDismiss ?u = handleDismiss ?u" by simp
  have qs: "queue_ok (step e s)" using q by (rule queue_ok_step)
  let ?t = "\<lparr>timer_id = nextTimerId ?u, due = now ?u + 200, callback = FinishExit\<rparr>"
  have tin: "?t \<in> set (timers (step e s))" by (simp add: sd timers_handleDismiss)
  have "dismissed (advance 200 (step e s))"
  proof (rule advance_exit [of ?t])
    show "callback ?t = FinishExit" by simp
    show "queue_ok (step e s)" by (rule qs)
    show "mounted (step e s)" using u by (simp add: sd)
    show "?t \<in> set (timers (step e s))" by (rule tin)
    show "now (step e s) < due ?t" by (simp add: sd)
    show "due ?t \<le> now (step e s) + 200" by (simp add: sd)
  qed
  then have d: "OnboardingOverlay (advance 200 (step e s)) = None"
    "onboardingCompleted (advance 200 (step e s))"
    by (simp_all add: dismissed_def OnboardingOverlay_def)
  have l: "OnboardingOverlay (step e s) = Some Leaving"
    using u by (simp add: sd OnboardingOverlay_def handleDismiss_def setTimeout_def)
  show "step e s = step ClickDismiss (store_update e s)" using sd cd by simp
  show "OnboardingOverlay (step e s) = Some Leaving" by (rule l)
  show "OnboardingOverlay (advance 200 (step e s)) = None" by (rule d(1))
  show "onboardingCompleted (advance 200 (step e s))" by (rule d(2))
qed

theorem onboarding_auto_dismiss_witness:
  "isVisible (run [Elapse 500] (mount False Map.empty [''i'' \<mapsto> True] (Some ''i''))) \<and>
   OnboardingOverlay (run [Elapse 499] (mount False Map.empty [''i'' \<mapsto> True] (Some ''i''))) = None \<and>
   OnboardingOverlay (step (SetConnectionStatus ''i'' ''Connected'')
     (run [Elapse 500] (mount False Map.empty [''i'' \<mapsto> True] (Some ''i'')))) = Some Leaving \<and>
   onboardingCompleted (advance 200 (step (SetConnectionStatus ''i'' ''Connected'')
     (run [Elapse 500] (mount False Map.empty [''i'' \<mapsto> True] (Some ''i'')))))"
proof -
  let ?s = "run [Elapse 500] (mount False Map.empty [''i'' \<mapsto> True] (Some ''i''))"
  let ?e = "SetConnectionStatus ''i'' ''Connected''"
  have a1: "Unmount \<notin> set [Elapse 499] \<and> elapsed [Elapse 499] < 500" by simp
  have a2: "Unmount \<notin> set [Elapse 500] \<and> elapsed [Elapse 500] = 500" by simp
  have v: "isVisible ?s"
    using onboarding_auto_dismiss [of "[Elapse 500]" "Map.empty" "[''i'' \<mapsto> True]" "Some ''i''"] a2
    by blast
  have n: "OnboardingOverlay (run [Elapse 499] (mount False Map.empty [''i'' \<mapsto> True] (Some ''i''))) = None"
    using onboarding_auto_dismiss [of "[Elapse 499]" "Map.empty" "[''i'' \<mapsto> True]" "Some ''i''"] a1
    by blast
  have h: "mounted ?s" "\<not> onboardingCompleted ?s"
    "activeInstanceId ?s = Some ''i''" "instanceResourceLoaded ?s ''i'' = Some True"
    by (simp_all add: shown_state)
  have a3: "?s = run [Elapse 500] (mount False Map.empty [''i'' \<mapsto> True] (Some ''i'')) \<and>
    mounted ?s \<and> isVisible ?s \<and> \<not> onboardingCompleted ?s \<and>
    activeInstanceId ?s = Some ''i'' \<and> ''i'' \<noteq> [] \<and>
    (?e = SetConnectionStatus ''i'' ''Connected'' \<and> instanceResourceLoaded ?s ''i'' = Some True \<or>
     ?e = SetResourceLoaded ''i'' True \<and> instanceConnectionStatus ?s ''i'' = Some ''Connected'')"
    using h v by simp
  have "OnboardingOverlay (step ?e ?s) = Some Leaving \<and>
        onboardingCompleted (advance 200 (step ?e ?s))"
    using onboarding_auto_dismiss [of "[]" "Map.empty" "Map.empty" None
      ?s "[Elapse 500]" False "Map.empty" "[''i'' \<mapsto> True]" "Some ''i''" "''i''" ?e] a3
    by blast
  with v n show ?thesis by blast
qed

text \<open>
  Claim C7. Started with the completed flag true, the overlay renders nothing after
  every sequence of events: store changes, clicks, time passing, unmounting.
\<close>

theorem overlay_never_visible_when_completed:
  "OnboardingOverlay (run es (mount True statuses loaded activeId)) = None \<and>
   \<not> isVisible (run es (mount True statuses loaded activeId))"
  using dismissed_run [OF dismissed_mount, of es statuses loaded activeId]
  by (simp add: dismissed_def OnboardingOverlay_def)

text \<open>
  Claim C8 says that both timers are cancelled when the overlay unmounts before they
  fire. The display timer is: unmounting after 100 ms leaves the queue empty. The exit
  timer is not: its id is not kept, and after 500 ms, a click and the unmount it is still
  queued (id 2, due at 700 ms); when it fires it calls the state setter of the unmounted
  component and writes the store.
\<close>

theorem exit_timer_survives_unmount:
  "timers (run [Elapse 500, ClickDismiss, Unmount] (mount False Map.empty Map.empty None))
     = [\<lparr>timer_id = 2, due = 700, callback = FinishExit\<rparr>] \<and>
   \<not> mounted (run [Elapse 500, ClickDismiss, Unmount] (mount False Map.empty Map.empty None)) \<and>
   staleUpdates (run [Elapse 500, ClickDismiss, Unmount, Elapse 200]
     (mount False Map.empty Map.empty None)) = 1 \<and>
   onboardingCompleted (run [Elapse 500, ClickDismiss, Unmount, Elapse 200]
     (mount False Map.empty Map.empty None)) \<and>
   timers (run [Elapse 100, Unmount] (mount False Map.empty Map.empty None)) = []"
proof -
  let ?m = "mount False Map.empty Map.empty None"
  let ?u = "run [Elapse 500, ClickDismiss, Unmount] ?m"
  have t: "timers ?u = [\<lparr>timer_id = 2, due = 700, callback = FinishExit\<rparr>]" and m: "\<not> mounted ?u"
    by (simp_all only: unmounted_exiting_state) simp_all
  have "advance (199 + 1) ?u = tick (?u\<lparr>now := now ?u + 199\<rparr>)"
    by (rule advance_then_tick) (simp only: unmounted_exiting_state, simp)
  then have a: "advance 200 ?u = tick (?u\<lparr>now := now ?u + 199\<rparr>)" by simp
  have "run ([Elapse 500, ClickDismiss, Unmount] @ [Elapse 200]) ?m = advance 200 ?u"
    by (simp only: run_snoc step.simps)
  then have r: "run [Elapse 500, ClickDismiss, Unmount, Elapse 200] ?m
      = tick (?u\<lparr>now := now ?u + 199\<rparr>)"
    using a by simp
  have f: "staleUpdates (tick (?u\<lparr>now := now ?u + 199\<rparr>)) = 1 \<and>
      onboardingCompleted (tick (?u\<lparr>now := now ?u + 199\<rparr>))"
    by (simp only: unmounted_exiting_state) (simp add: tick_def fire_def clearTimeout_def)
  have "advance 100 ?m = ?m\<lparr>now := now ?m + 100\<rparr>"
    by (rule advance_idle) (simp add: mount_pending_state)
  then have c: "timers (run [Elapse 100, Unmount] ?m) = []"
    by (simp add: mount_pending_state unmount_def displayCleanup_def clearTimeout_def)
  from t m r f c show ?thesis by (simp only:) simp
qed

end
